theory Spec2Isabelle
  imports Complex_Main "HOL-Library.Word" "HOL-Library.Monad_Syntax"
begin

unbundle bit_operations_syntax

section \<open>Constants and global state of afl\_darwin.c\<close>

text \<open>
  The population size and the elite count are the unsigned constants \<^verbatim>\<open>20u\<close> and
  \<^verbatim>\<open>4u\<close> of the source.  \<^verbatim>\<open>unsigned\<close> and \<^verbatim>\<open>int\<close> are 32 bits wide
  (\<^verbatim>\<open>sizeof(int) = 4\<close>), as on every platform the fuzzer builds on.
\<close>

definition M :: "32 word" where
  "M = 20"

definition N :: "32 word" where
  "N = 4"

text \<open>
  The globals of the file, one list cell per seed.  \<^verbatim>\<open>_Fitness[seed]\<close> is an array of
  \<^verbatim>\<open>int\<close>, \<^verbatim>\<open>_bestIndex[seed]\<close> and \<^verbatim>\<open>_nextToEvaluate[seed]\<close> are unsigned,
  \<^verbatim>\<open>_individual[seed][k]\<close> is an array of \<^verbatim>\<open>bool\<close> (the build without
  \<^verbatim>\<open>REAL_VALUED\<close>).  The pointer \<^verbatim>\<open>_currentRelativeProb[seed]\<close> only ever holds the
  address of a row \<^verbatim>\<open>_individual[seed][k]\<close>; it is kept as that row number \<open>k\<close>, so that
  a write through the pointer is a write to the row.  A \<^verbatim>\<open>double\<close> is a real number; the
  rounding of each floating-point operation is the parameter \<open>fl\<close> of the functions below.
\<close>

record darwin =
  MutationOperatorsNum :: "32 word"
  Fitness :: "32 word list list"
  bestIndex :: "32 word list list"
  nextToEvaluate :: "32 word list"
  individual :: "bool list list list"
  currentRelativeProb :: "nat list"
  p :: "real list list"

text \<open>A read of an array cell; \<open>None\<close> is the access outside the allocated block.\<close>

definition cell :: "'a list \<Rightarrow> nat \<Rightarrow> 'a option" where
  "cell xs i = (if i < length xs then Some (xs ! i) else None)"

text \<open>
  \<^verbatim>\<open>memset(a, 0, n)\<close> on an array of \<^verbatim>\<open>int\<close>: it clears the first \<open>n\<close> bytes of the
  block.  Cell \<open>k\<close> occupies the bytes \<open>4 * k\<close> to \<open>4 * k + 3\<close>, so a cell is cleared when
  all four of its bytes are among the first \<open>n\<close>, kept when none is, and loses its
  low-address bytes otherwise (the low-order ones, little-endian).  Both calls of the source
  pass \<open>n = M\<close>, which stays inside the block of \<open>M\<close> cells.
\<close>

definition memset_zero :: "32 word list \<Rightarrow> nat \<Rightarrow> 32 word list" where
  "memset_zero a n =
     map (\<lambda>k. if 4 * (k + 1) \<le> n then 0
              else if n \<le> 4 * k then a ! k
              else a ! k AND NOT (mask (8 * (n - 4 * k))))
         [0..<length a]"

section \<open>The host: C library and random numbers\<close>

text \<open>
  What \<^verbatim>\<open>DARWIN_init\<close> takes from the C library: the constant \<^verbatim>\<open>RAND_MAX\<close>, the
  results of the successive calls of \<^verbatim>\<open>rand()\<close> (call number \<open>n\<close> returns \<open>rand h n\<close>), and
  the indeterminate contents of the blocks \<^verbatim>\<open>malloc\<close> returns for \<^verbatim>\<open>_Fitness[seed]\<close> and
  \<^verbatim>\<open>_individual[seed][k]\<close>.  Every allocation is taken to succeed.
\<close>

record host =
  RAND_MAX :: int
  rand :: "nat \<Rightarrow> int"
  heap_Fitness :: "nat \<Rightarrow> nat \<Rightarrow> 32 word"
  heap_individual :: "nat \<Rightarrow> nat \<Rightarrow> nat \<Rightarrow> bool"

text \<open>
  The standard model of rounding to \<^verbatim>\<open>double\<close>: monotone, exact on 0 and 1, and off by at
  most a hundredth on the interval from 0 to 2 (IEEE 754 binary64 is off by at most
  \<open>2\<^sup>-\<^sup>5\<^sup>3\<close> there).  Exact real arithmetic is the instance \<open>fl = (\<lambda>x. x)\<close>.
\<close>

definition double_rounding :: "(real \<Rightarrow> real) \<Rightarrow> bool" where
  "double_rounding fl \<longleftrightarrow>
     (\<forall>x y. x \<le> y \<longrightarrow> fl x \<le> fl y) \<and> fl 0 = 0 \<and> fl 1 = 1 \<and>
     (\<forall>x. 0 \<le> x \<and> x \<le> 2 \<longrightarrow> \<bar>fl x - x\<bar> \<le> 1 / 100)"

definition LEARNING_RATE :: "(real \<Rightarrow> real) \<Rightarrow> real" where
  "LEARNING_RATE fl = fl (3 / 10)"

section \<open>DARWIN\_init\<close>

text \<open>
  The loop counter \<^verbatim>\<open>seed\<close> is an \<^verbatim>\<open>int\<close>: with more than \<^verbatim>\<open>INT_MAX\<close> seeds its increment
  overflows, which is the result \<open>None\<close>.  Only row 0 of each population is filled (from
  \<^verbatim>\<open>rand()\<close>); the other rows keep what \<^verbatim>\<open>malloc\<close> left there.
\<close>

definition DARWIN_init :: "host \<Rightarrow> 64 word \<Rightarrow> 32 word \<Rightarrow> darwin option" where
  "DARWIN_init h nr_seeds nr_mutations =
     (if nr_seeds \<le> 2147483647 then
        let K = unat nr_mutations; seeds = [0..<unat nr_seeds] in
        Some \<lparr> MutationOperatorsNum = nr_mutations,
               Fitness = map (\<lambda>seed. memset_zero (map (heap_Fitness h seed) [0..<unat M]) (unat M)) seeds,
               bestIndex = map (\<lambda>seed. map (\<lambda>i. 5 * of_nat i) [0..<unat N]) seeds,
               nextToEvaluate = map (\<lambda>seed. 0) seeds,
               individual = map (\<lambda>seed.
                   (map (\<lambda>k. map (heap_individual h seed k) [0..<K]) [0..<unat M])
                     [0 := map (\<lambda>i. RAND_MAX h div 2 < rand h (seed * K + i)) [0..<K]]) seeds,
               currentRelativeProb = map (\<lambda>seed. 0) seeds,
               p = map (\<lambda>seed. replicate K (1 / 2)) seeds \<rparr>
      else None)"

section \<open>DARWIN\_SelectOperator\<close>

text \<open>
  The \<^verbatim>\<open>while\<close> loop over the candidate \<open>cand\<close> the pointer designates.  The flag is read
  before \<open>nTries\<close> is compared, so the read happens in every round.
\<close>

function select_loop :: "bool list \<Rightarrow> 32 word \<Rightarrow> 32 word \<Rightarrow> 32 word \<Rightarrow> 32 word option" where
  "select_loop cand K operatorId nTries =
     (if unat operatorId < length cand then
        if cand ! unat operatorId = False \<and> nTries < K
        then select_loop cand K ((operatorId + 1) mod K) (nTries + 1)
        else Some operatorId
      else None)"
  by pat_completeness auto
termination
proof (relation "measure (\<lambda>(cand, K, operatorId, nTries). unat K - unat nTries)")
  show "wf (measure (\<lambda>(cand, K, operatorId, nTries). unat K - unat nTries))"
    by simp
next
  fix cand :: "bool list" and K operatorId nTries :: "32 word"
  assume "cand ! unat operatorId = False \<and> nTries < K"
  then have lt: "unat nTries < unat K"
    by (simp add: word_less_nat_alt)
  have "unat K < 2 ^ 32"
    using unsigned_less [of K] by simp
  with lt have "unat (nTries + 1) = unat nTries + 1"
    by (simp add: unat_word_ariths)
  with lt show "((cand, K, (operatorId + 1) mod K, nTries + 1), (cand, K, operatorId, nTries))
      \<in> measure (\<lambda>(cand, K, operatorId, nTries). unat K - unat nTries)"
    by simp
qed

declare select_loop.simps [simp del]

text \<open>
  \<open>r\<close> is the value \<^verbatim>\<open>rand_32_int(MutationOperatorsNum)\<close> returned.  The result is the
  \<^verbatim>\<open>unsigned\<close> \<open>operatorId\<close> converted to the return type \<^verbatim>\<open>int\<close>, together with the
  engine state after the call.
\<close>

definition DARWIN_SelectOperator :: "darwin \<Rightarrow> nat \<Rightarrow> 32 word \<Rightarrow> (int \<times> darwin) option" where
  "DARWIN_SelectOperator s seed r = do {
     k \<leftarrow> cell (currentRelativeProb s) seed;
     rows \<leftarrow> cell (individual s) seed;
     cand \<leftarrow> cell rows k;
     operatorId \<leftarrow> select_loop cand (MutationOperatorsNum s) r 0;
     Some (sint operatorId, s)
   }"

section \<open>DARWIN\_NotifyFeedback\<close>

text \<open>
  Lines 110 to 117: store the fitness, compare it (as \<^verbatim>\<open>int\<close>, after the store) with the
  fitness of the elite of the bucket \<^verbatim>\<open>_nextToEvaluate[seed]*N/M\<close>, and advance the cursor.
\<close>

definition record_fitness :: "darwin \<Rightarrow> nat \<Rightarrow> 32 word \<Rightarrow> darwin option" where
  "record_fitness s seed numPaths = do {
     nx \<leftarrow> cell (nextToEvaluate s) seed;
     fit \<leftarrow> cell (Fitness s) seed;
     best \<leftarrow> cell (bestIndex s) seed;
     _ \<leftarrow> cell fit (unat nx);
     let fit' = fit[unat nx := numPaths];
     let bucket = nx * N div M;
     elite \<leftarrow> cell best (unat bucket);
     elite_fitness \<leftarrow> cell fit' (unat elite);
     own_fitness \<leftarrow> cell fit' (unat nx);
     let best' = (if elite_fitness <s own_fitness then best[unat bucket := nx] else best);
     Some (s\<lparr> Fitness := (Fitness s)[seed := fit'],
              bestIndex := (bestIndex s)[seed := best'],
              nextToEvaluate := (nextToEvaluate s)[seed := nx + 1] \<rparr>)
   }"

text \<open>
  The inner loop of the generation boundary: \<open>elite_sum inds best i n\<close> is \<^verbatim>\<open>sum\<close> after
  the rounds \<open>j = 0, \<dots>, n - 1\<close>.  A \<^verbatim>\<open>bool\<close> adds 1 or 0.
\<close>

fun elite_sum :: "bool list list \<Rightarrow> 32 word list \<Rightarrow> nat \<Rightarrow> nat \<Rightarrow> int option" where
  "elite_sum inds best i 0 = Some 0"
| "elite_sum inds best i (Suc j) = do {
     sumv \<leftarrow> elite_sum inds best i j;
     elite \<leftarrow> cell best j;
     row \<leftarrow> cell inds (unat elite);
     flag \<leftarrow> cell row i;
     Some (sumv + (if flag then 1 else 0))
   }"

text \<open>
  \<^verbatim>\<open>if(sum == N) sum--; if(sum == 0) sum++;\<close>  The first comparison converts \<^verbatim>\<open>sum\<close> to
  \<^verbatim>\<open>unsigned\<close>.
\<close>

definition clamp_sum :: "int \<Rightarrow> int" where
  "clamp_sum sumv =
     (let sum1 = (if (word_of_int sumv :: 32 word) = N then sumv - 1 else sumv)
      in if sum1 = 0 then sum1 + 1 else sum1)"

text \<open>
  The right-hand side of line 130, \<^verbatim>\<open>(1 - LEARNING_RATE)*p[seed][i] + LEARNING_RATE * sum / N\<close>,
  with each operation rounded; \<^verbatim>\<open>sum\<close> and \<^verbatim>\<open>N\<close> convert to \<^verbatim>\<open>double\<close> exactly.
\<close>

definition smooth :: "(real \<Rightarrow> real) \<Rightarrow> real \<Rightarrow> int \<Rightarrow> real" where
  "smooth fl old sumv =
     fl (fl (fl (1 - LEARNING_RATE fl) * old) + fl (fl (LEARNING_RATE fl * of_int sumv) / of_nat (unat N)))"

text \<open>The outer loop: \<open>update_p fl inds best prow n\<close> is \<^verbatim>\<open>p[seed]\<close> after the rounds \<open>i < n\<close>.\<close>

fun update_p :: "(real \<Rightarrow> real) \<Rightarrow> bool list list \<Rightarrow> 32 word list \<Rightarrow> real list \<Rightarrow> nat \<Rightarrow> real list option" where
  "update_p fl inds best prow 0 = Some prow"
| "update_p fl inds best prow (Suc i) = do {
     prow' \<leftarrow> update_p fl inds best prow i;
     sumv \<leftarrow> elite_sum inds best i (unat N);
     old \<leftarrow> cell prow' i;
     Some (prow'[i := smooth fl old (clamp_sum sumv)])
   }"

text \<open>Lines 137 to 139: \<^verbatim>\<open>_bestIndex[seed][i] = 5*i\<close> for \<open>i < N\<close>.\<close>

fun reseed_best :: "32 word list \<Rightarrow> nat \<Rightarrow> 32 word list option" where
  "reseed_best best 0 = Some best"
| "reseed_best best (Suc i) = do {
     best' \<leftarrow> reseed_best best i;
     _ \<leftarrow> cell best' i;
     Some (best'[i := 5 * of_nat i])
   }"

text \<open>Lines 122 to 141, the body of \<^verbatim>\<open>if(_nextToEvaluate[seed] == M)\<close>.\<close>

definition generation_boundary :: "(real \<Rightarrow> real) \<Rightarrow> darwin \<Rightarrow> nat \<Rightarrow> darwin option" where
  "generation_boundary fl s seed = do {
     inds \<leftarrow> cell (individual s) seed;
     best \<leftarrow> cell (bestIndex s) seed;
     prow \<leftarrow> cell (p s) seed;
     fit \<leftarrow> cell (Fitness s) seed;
     _ \<leftarrow> cell (nextToEvaluate s) seed;
     prow' \<leftarrow> update_p fl inds best prow (unat (MutationOperatorsNum s));
     best' \<leftarrow> reseed_best best (unat N);
     Some (s\<lparr> p := (p s)[seed := prow'],
              nextToEvaluate := (nextToEvaluate s)[seed := 0],
              bestIndex := (bestIndex s)[seed := best'],
              Fitness := (Fitness s)[seed := memset_zero fit (unat M)] \<rparr>)
   }"

text \<open>
  Lines 149 to 151: \<open>dbl i\<close> is the value \<^verbatim>\<open>rand_32_double()\<close> returns in round \<open>i\<close>;
  \<open>sample_row dbl prow row n\<close> is the candidate after the rounds \<open>i < n\<close>.
\<close>

fun sample_row :: "(nat \<Rightarrow> real) \<Rightarrow> real list \<Rightarrow> bool list \<Rightarrow> nat \<Rightarrow> bool list option" where
  "sample_row dbl prow row 0 = Some row"
| "sample_row dbl prow row (Suc i) = do {
     row' \<leftarrow> sample_row dbl prow row i;
     _ \<leftarrow> cell row' i;
     prob \<leftarrow> cell prow i;
     Some (row'[i := dbl i < prob])
   }"

text \<open>Lines 146 to 152: point at the next individual and draw it.\<close>

definition generate_candidate :: "darwin \<Rightarrow> nat \<Rightarrow> (nat \<Rightarrow> real) \<Rightarrow> darwin option" where
  "generate_candidate s seed dbl = do {
     nx \<leftarrow> cell (nextToEvaluate s) seed;
     if nx < M then do {
       inds \<leftarrow> cell (individual s) seed;
       row \<leftarrow> cell inds (unat nx);
       prow \<leftarrow> cell (p s) seed;
       _ \<leftarrow> cell (currentRelativeProb s) seed;
       row' \<leftarrow> sample_row dbl prow row (unat (MutationOperatorsNum s));
       Some (s\<lparr> currentRelativeProb := (currentRelativeProb s)[seed := unat nx],
                individual := (individual s)[seed := inds[unat nx := row']] \<rparr>)
     } else Some s
   }"

definition DARWIN_NotifyFeedback ::
    "(real \<Rightarrow> real) \<Rightarrow> darwin \<Rightarrow> nat \<Rightarrow> 32 word \<Rightarrow> (nat \<Rightarrow> real) \<Rightarrow> darwin option" where
  "DARWIN_NotifyFeedback fl s seed numPaths dbl = do {
     s1 \<leftarrow> record_fitness s seed numPaths;
     nx \<leftarrow> cell (nextToEvaluate s1) seed;
     s2 \<leftarrow> (if nx = M then generation_boundary fl s1 seed else Some s1);
     generate_candidate s2 seed dbl
   }"

text \<open>
  A history of feedback calls, each with its seed, its path count and the doubles drawn in
  it.  \<^verbatim>\<open>DARWIN_SelectOperator\<close> calls in between do not change the state and are left out.
\<close>

fun run :: "(real \<Rightarrow> real) \<Rightarrow> darwin \<Rightarrow> (nat \<times> 32 word \<times> (nat \<Rightarrow> real)) list \<Rightarrow> darwin option" where
  "run fl s [] = Some s"
| "run fl s ((seed, numPaths, dbl) # calls) = do {
     s' \<leftarrow> DARWIN_NotifyFeedback fl s seed numPaths dbl;
     run fl s' calls
   }"

section \<open>DARWIN\_get\_parent\_repr\<close>

definition DARWIN_get_parent_repr :: "darwin \<Rightarrow> nat \<Rightarrow> 32 word \<times> darwin" where
  "DARWIN_get_parent_repr s seed = (let val = 0 in (val, s))"

section \<open>Closed forms and well-formed states\<close>

text \<open>
  The number of the first \<open>n\<close> elite slots whose individual has operator \<open>i\<close> on: the
  value the inner loop of the generation boundary adds up.
\<close>

definition elite_count :: "bool list list \<Rightarrow> 32 word list \<Rightarrow> nat \<Rightarrow> nat \<Rightarrow> int" where
  "elite_count inds best i n = int (length (filter (\<lambda>j. inds ! unat (best ! j) ! i) [0..<n]))"

text \<open>
  The shape \<^verbatim>\<open>DARWIN_init\<close> allocates and no later call changes: one cell per seed in
  every global, \<open>M\<close> fitness cells, \<open>N\<close> elite slots, \<open>M\<close> individuals of
  \<^verbatim>\<open>MutationOperatorsNum\<close> flags and as many probabilities for each seed.
\<close>

definition arrays_ok :: "darwin \<Rightarrow> bool" where
  "arrays_ok s \<longleftrightarrow>
     length (Fitness s) = length (nextToEvaluate s) \<and>
     length (bestIndex s) = length (nextToEvaluate s) \<and>
     length (individual s) = length (nextToEvaluate s) \<and>
     length (currentRelativeProb s) = length (nextToEvaluate s) \<and>
     length (p s) = length (nextToEvaluate s) \<and>
     (\<forall>seed < length (nextToEvaluate s).
        length (Fitness s ! seed) = unat M \<and>
        length (bestIndex s ! seed) = unat N \<and>
        length (individual s ! seed) = unat M \<and>
        (\<forall>k < unat M. length (individual s ! seed ! k) = unat (MutationOperatorsNum s)) \<and>
        length (p s ! seed) = unat (MutationOperatorsNum s))"

text \<open>Every elite slot \<open>b\<close> holds an index of its own fifth of the population.\<close>

definition elites_ok :: "darwin \<Rightarrow> bool" where
  "elites_ok s \<longleftrightarrow>
     (\<forall>seed < length (bestIndex s). \<forall>b < unat N.
        5 * b \<le> unat (bestIndex s ! seed ! b) \<and> unat (bestIndex s ! seed ! b) < 5 * b + 5)"

text \<open>
  Between two calls every cursor is below \<open>M\<close> and the candidate pointer designates the
  individual at the cursor.
\<close>

definition cursors_ok :: "darwin \<Rightarrow> bool" where
  "cursors_ok s \<longleftrightarrow>
     (\<forall>seed < length (nextToEvaluate s).
        nextToEvaluate s ! seed < M \<and>
        currentRelativeProb s ! seed = unat (nextToEvaluate s ! seed))"

text \<open>
  The states the engine is in between two calls: \<^verbatim>\<open>DARWIN_init\<close> returns such a state and
  a feedback call on a valid seed maps such a state to such a state (lemmas
  \<open>init_well_formed\<close>, \<open>fed_well_formed\<close> and \<open>run_well_formed\<close> below).
\<close>

definition well_formed :: "darwin \<Rightarrow> bool" where
  "well_formed s \<longleftrightarrow> arrays_ok s \<and> elites_ok s \<and> cursors_ok s"

text \<open>The state after lines 110 to 117.\<close>

definition recorded :: "darwin \<Rightarrow> nat \<Rightarrow> 32 word \<Rightarrow> darwin" where
  "recorded s seed numPaths =
     (let nx = nextToEvaluate s ! seed;
          fit = (Fitness s ! seed)[unat nx := numPaths];
          best = bestIndex s ! seed;
          b = unat nx div 5
      in s\<lparr> Fitness := (Fitness s)[seed := fit],
            bestIndex := (bestIndex s)[seed := (if fit ! unat (best ! b) <s numPaths then best[b := nx] else best)],
            nextToEvaluate := (nextToEvaluate s)[seed := nx + 1] \<rparr>)"

text \<open>The state after the body of the generation boundary.\<close>

definition boundary :: "(real \<Rightarrow> real) \<Rightarrow> darwin \<Rightarrow> nat \<Rightarrow> darwin" where
  "boundary fl s seed =
     s\<lparr> p := (p s)[seed := map (\<lambda>i. smooth fl (p s ! seed ! i)
                  (clamp_sum (elite_count (individual s ! seed) (bestIndex s ! seed) i (unat N))))
                [0..<unat (MutationOperatorsNum s)]],
        nextToEvaluate := (nextToEvaluate s)[seed := 0],
        bestIndex := (bestIndex s)[seed := map (\<lambda>i. 5 * of_nat i) [0..<unat N]],
        Fitness := (Fitness s)[seed := memset_zero (Fitness s ! seed) (unat M)] \<rparr>"

text \<open>The state after lines 147 to 151, for a cursor below \<open>M\<close>.\<close>

definition generated :: "darwin \<Rightarrow> nat \<Rightarrow> (nat \<Rightarrow> real) \<Rightarrow> darwin" where
  "generated s seed dbl =
     s\<lparr> currentRelativeProb := (currentRelativeProb s)[seed := unat (nextToEvaluate s ! seed)],
        individual := (individual s)[seed := (individual s ! seed)
           [unat (nextToEvaluate s ! seed) :=
              map (\<lambda>i. dbl i < p s ! seed ! i) [0..<unat (MutationOperatorsNum s)]]] \<rparr>"

text \<open>The state after a whole feedback call.\<close>

definition fed :: "(real \<Rightarrow> real) \<Rightarrow> darwin \<Rightarrow> nat \<Rightarrow> 32 word \<Rightarrow> (nat \<Rightarrow> real) \<Rightarrow> darwin" where
  "fed fl s seed numPaths dbl =
     (let s1 = recorded s seed numPaths
      in generated (if nextToEvaluate s ! seed + 1 = M then boundary fl s1 seed else s1) seed dbl)"

text \<open>Every learned probability of every seed lies between 0 and 1.\<close>

definition probs_ok :: "darwin \<Rightarrow> bool" where
  "probs_ok s \<longleftrightarrow> (\<forall>row \<in> set (p s). \<forall>x \<in> set row. 0 \<le> x \<and> x \<le> 1)"

text \<open>
  A concrete host for evaluating the functions: \<^verbatim>\<open>rand()\<close> alternates between 30000 and 5,
  fresh fitness blocks hold 7 in every cell, fresh candidate rows alternate.
\<close>

definition test_host :: host where
  "test_host = \<lparr> RAND_MAX = 32767, rand = (\<lambda>n. if even n then 30000 else 5),
       heap_Fitness = (\<lambda>seed k. 7), heap_individual = (\<lambda>seed k i. odd (k + i)) \<rparr>"


text \<open>
  A state in the middle of a run, for evaluating the functions: one seed, two operators,
  cursor \<open>nx\<close>, every individual equal to \<open>cand\<close>, fitness 4 recorded for individual 0.
\<close>

definition test_state :: "32 word \<Rightarrow> bool list \<Rightarrow> darwin" where
  "test_state nx cand =
     \<lparr> MutationOperatorsNum = 2,
       Fitness = [4 # replicate 19 0],
       bestIndex = [[0, 5, 10, 15]],
       nextToEvaluate = [nx],
       individual = [replicate 20 cand],
       currentRelativeProb = [unat nx],
       p = [[1 / 2, 1 / 4]] \<rparr>"

section \<open>Lemmas about the stages\<close>

lemma unat_M [simp]: "unat M = 20"
  by (simp add: M_def)

lemma unat_N [simp]: "unat N = 4"
  by (simp add: N_def)

lemma cell_in [simp]: "i < length xs \<Longrightarrow> cell xs i = Some (xs ! i)"
  by (simp add: cell_def)

lemma cell_out [simp]: "\<not> i < length xs \<Longrightarrow> cell xs i = None"
  by (simp add: cell_def)

lemma prefix_update:
  assumes "n < length xs"
  shows "(map f [0..<n] @ drop n xs)[n := f n] = map f [0..<Suc n] @ drop (Suc n) xs"
proof -
  have "drop n xs = xs ! n # drop (Suc n) xs"
    using assms by (simp add: Cons_nth_drop_Suc)
  then show ?thesis
    by (simp add: list_update_append)
qed

lemma prefix_nth:
  assumes "n < length xs"
  shows "(map f [0..<n] @ drop n xs) ! n = xs ! n"
  using assms by (simp add: nth_append)

lemma reseed_best_eq:
  "n \<le> length best \<Longrightarrow>
   reseed_best best n = Some (map (\<lambda>i. 5 * of_nat i) [0..<n] @ drop n best)"
proof (induction n)
  case 0
  show ?case by simp
next
  case (Suc n)
  then have n: "n < length best" by simp
  have "(map (\<lambda>i. 5 * word_of_nat i) [0..<n] @ drop n best)[n := 5 * word_of_nat n]
      = map (\<lambda>i. 5 * word_of_nat i) [0..<Suc n] @ drop (Suc n) best"
    using prefix_update [OF n, of "\<lambda>i. 5 * word_of_nat i"] .
  with Suc n show ?case by simp
qed

lemma sample_row_eq:
  "n \<le> length row \<Longrightarrow> n \<le> length prow \<Longrightarrow>
   sample_row dbl prow row n = Some (map (\<lambda>i. dbl i < prow ! i) [0..<n] @ drop n row)"
proof (induction n)
  case 0
  show ?case by simp
next
  case (Suc n)
  then have n: "n < length row" "n < length prow" by simp_all
  have "(map (\<lambda>i. dbl i < prow ! i) [0..<n] @ drop n row)[n := dbl n < prow ! n]
      = map (\<lambda>i. dbl i < prow ! i) [0..<Suc n] @ drop (Suc n) row"
    using prefix_update [OF n(1), of "\<lambda>i. dbl i < prow ! i"] .
  with Suc n show ?case by simp
qed

lemma elite_sum_eq:
  assumes "n \<le> length best"
    and "\<forall>j<n. unat (best ! j) < length inds \<and> i < length (inds ! unat (best ! j))"
  shows "elite_sum inds best i n = Some (elite_count inds best i n)"
  using assms
proof (induction n)
  case 0
  show ?case by (simp add: elite_count_def)
next
  case (Suc n)
  then have "elite_sum inds best i n = Some (elite_count inds best i n)"
    by simp
  moreover have "n < length best" "unat (best ! n) < length inds" "i < length (inds ! unat (best ! n))"
    using Suc.prems by auto
  ultimately show ?case
    by (simp add: elite_count_def)
qed

lemma update_p_eq:
  assumes "n \<le> length prow" and "unat N \<le> length best"
    and "\<forall>j<unat N. unat (best ! j) < length inds \<and> n \<le> length (inds ! unat (best ! j))"
  shows "update_p fl inds best prow n =
     Some (map (\<lambda>i. smooth fl (prow ! i) (clamp_sum (elite_count inds best i (unat N)))) [0..<n] @ drop n prow)"
  using assms
proof (induction n)
  case 0
  show ?case by simp
next
  case (Suc n)
  let ?f = "\<lambda>i. smooth fl (prow ! i) (clamp_sum (elite_count inds best i (unat N)))"
  have n: "n < length prow"
    using Suc.prems by simp
  have "\<forall>j<unat N. unat (best ! j) < length inds \<and> n \<le> length (inds ! unat (best ! j))"
    using Suc.prems(3) by (simp add: Suc_leD)
  with Suc have ih: "update_p fl inds best prow n = Some (map ?f [0..<n] @ drop n prow)"
    by simp
  have es: "elite_sum inds best n (unat N) = Some (elite_count inds best n (unat N))"
    by (rule elite_sum_eq) (use Suc.prems in auto)
  have "(map ?f [0..<n] @ drop n prow)[n := ?f n] = map ?f [0..<Suc n] @ drop (Suc n) prow"
    using prefix_update [OF n, of ?f] .
  with ih es n show ?case
    by (simp add: nth_append)
qed

lemma cursor_unat: "nx < M \<Longrightarrow> unat nx < 20"
  by (simp add: word_less_nat_alt)

lemma bucket_unat:
  assumes "nx < M"
  shows "unat (nx * N div M) = unat nx div 5"
proof -
  have "unat nx < 20"
    using assms by (rule cursor_unat)
  then have "unat (nx * N) = unat nx * 4"
    by (simp add: unat_word_ariths)
  then show ?thesis
    by (simp add: unat_div)
qed

lemma cursor_succ:
  assumes "nx < M"
  shows "unat (nx + 1) = Suc (unat nx)"
  using cursor_unat [OF assms] by (simp add: unat_word_ariths)

lemma record_fitness_eq:
  assumes wf: "well_formed s" and seed: "seed < length (nextToEvaluate s)"
  shows "record_fitness s seed numPaths = Some (recorded s seed numPaths)"
proof -
  let ?nx = "nextToEvaluate s ! seed"
  have nx: "unat ?nx < 20"
    using wf seed by (simp add: well_formed_def cursors_ok_def cursor_unat)
  have b: "unat (?nx * N div M) = unat ?nx div 5"
    using wf seed by (simp add: well_formed_def cursors_ok_def bucket_unat)
  have b4: "unat ?nx div 5 < 4"
    using nx by simp
  have len: "seed < length (Fitness s)" "seed < length (bestIndex s)"
      "length (Fitness s ! seed) = 20" "length (bestIndex s ! seed) = 4"
    using wf seed by (simp_all add: well_formed_def arrays_ok_def)
  have e: "unat (bestIndex s ! seed ! (unat ?nx div 5)) < 20"
  proof -
    have "unat (bestIndex s ! seed ! (unat ?nx div 5)) < 5 * (unat ?nx div 5) + 5"
      using wf len b4 by (simp add: well_formed_def elites_ok_def)
    with b4 show ?thesis by simp
  qed
  show ?thesis
    using seed nx b b4 len e
    by (simp add: record_fitness_def recorded_def Let_def)
qed

lemma nth_upd: "j < length xs \<Longrightarrow> xs[i := x] ! j = (if i = j then x else xs ! j)"
  by (cases "i = j") simp_all

lemma recorded_fields [simp]:
  "MutationOperatorsNum (recorded s seed numPaths) = MutationOperatorsNum s"
  "individual (recorded s seed numPaths) = individual s"
  "currentRelativeProb (recorded s seed numPaths) = currentRelativeProb s"
  "p (recorded s seed numPaths) = p s"
  "nextToEvaluate (recorded s seed numPaths) = (nextToEvaluate s)[seed := nextToEvaluate s ! seed + 1]"
  "length (Fitness (recorded s seed numPaths)) = length (Fitness s)"
  "length (bestIndex (recorded s seed numPaths)) = length (bestIndex s)"
  by (simp_all add: recorded_def Let_def)

lemma recorded_arrays_ok:
  assumes "arrays_ok s"
  shows "arrays_ok (recorded s seed numPaths)"
  using assms
  by (simp add: arrays_ok_def recorded_def Let_def nth_upd)

lemma elite_row_update:
  assumes old: "\<forall>b<4. 5 * b \<le> unat (best ! b) \<and> unat (best ! b) < 5 * b + 5"
    and len: "length best = 4" and nx: "unat nx < 20"
  shows "\<forall>b<4. 5 * b \<le> unat (best[unat nx div 5 := nx] ! b) \<and>
                unat (best[unat nx div 5 := nx] ! b) < 5 * b + 5"
proof (intro allI impI)
  fix b :: nat
  assume b: "b < 4"
  show "5 * b \<le> unat (best[unat nx div 5 := nx] ! b) \<and>
        unat (best[unat nx div 5 := nx] ! b) < 5 * b + 5"
  proof (cases "b = unat nx div 5")
    case True
    then have "best[unat nx div 5 := nx] ! b = nx"
      using b len by simp
    moreover have "5 * b \<le> unat nx \<and> unat nx < 5 * b + 5"
      unfolding True by presburger
    ultimately show ?thesis by simp
  next
    case False
    then have "best[unat nx div 5 := nx] ! b = best ! b"
      by simp
    with old b show ?thesis by simp
  qed
qed

lemma recorded_elites_ok:
  assumes wf: "well_formed s" and seed: "seed < length (nextToEvaluate s)"
  shows "elites_ok (recorded s seed numPaths)"
proof -
  let ?nx = "nextToEvaluate s ! seed"
  have nx: "unat ?nx < 20"
    using wf seed by (simp add: well_formed_def cursors_ok_def cursor_unat)
  have old: "\<And>sd. sd < length (bestIndex s) \<Longrightarrow> \<forall>b < 4.
      5 * b \<le> unat (bestIndex s ! sd ! b) \<and> unat (bestIndex s ! sd ! b) < 5 * b + 5"
    using wf by (simp add: well_formed_def elites_ok_def)
  have len: "length (bestIndex s ! seed) = 4" "seed < length (bestIndex s)"
    using wf seed by (simp_all add: well_formed_def arrays_ok_def)
  note upd = elite_row_update [OF old [OF len(2)] len(1) nx]
  show ?thesis
    unfolding elites_ok_def
  proof (intro allI impI)
    fix sd b
    assume sd: "sd < length (bestIndex (recorded s seed numPaths))" and b: "b < unat N"
    then have sd': "sd < length (bestIndex s)" and b': "b < 4"
      by simp_all
    show "5 * b \<le> unat (bestIndex (recorded s seed numPaths) ! sd ! b) \<and>
          unat (bestIndex (recorded s seed numPaths) ! sd ! b) < 5 * b + 5"
    proof (cases "sd = seed")
      case True
      then show ?thesis
        using upd [rule_format, OF b'] old [OF len(2), rule_format, OF b'] len
        by (simp add: recorded_def Let_def)
    next
      case False
      then show ?thesis
        using old [OF sd', rule_format, OF b'] sd'
        by (simp add: recorded_def Let_def)
    qed
  qed
qed

lemma generation_boundary_eq:
  assumes ar: "arrays_ok s" and el: "elites_ok s" and seed: "seed < length (nextToEvaluate s)"
  shows "generation_boundary fl s seed = Some (boundary fl s seed)"
proof -
  let ?K = "unat (MutationOperatorsNum s)"
  have len: "seed < length (individual s)" "seed < length (bestIndex s)" "seed < length (p s)"
      "seed < length (Fitness s)" "length (bestIndex s ! seed) = 4" "length (p s ! seed) = ?K"
      "length (individual s ! seed) = 20"
    using ar seed by (simp_all add: arrays_ok_def)
  have rows: "\<forall>j<unat N. unat (bestIndex s ! seed ! j) < length (individual s ! seed) \<and>
      ?K \<le> length (individual s ! seed ! unat (bestIndex s ! seed ! j))"
  proof (intro allI impI)
    fix j assume "j < unat N"
    then have j: "j < 4" by simp
    then have "unat (bestIndex s ! seed ! j) < 5 * j + 5"
      using el len by (simp add: elites_ok_def)
    with j have e: "unat (bestIndex s ! seed ! j) < 20" by simp
    then have "length (individual s ! seed ! unat (bestIndex s ! seed ! j)) = ?K"
      using ar seed by (simp add: arrays_ok_def)
    with e len show "unat (bestIndex s ! seed ! j) < length (individual s ! seed) \<and>
      ?K \<le> length (individual s ! seed ! unat (bestIndex s ! seed ! j))"
      by simp
  qed
  have up: "update_p fl (individual s ! seed) (bestIndex s ! seed) (p s ! seed) ?K =
      Some (map (\<lambda>i. smooth fl (p s ! seed ! i)
                  (clamp_sum (elite_count (individual s ! seed) (bestIndex s ! seed) i (unat N))))
                [0..<?K])"
    using update_p_eq [of ?K "p s ! seed" "bestIndex s ! seed" "individual s ! seed" fl] rows len
    by simp
  have rs: "reseed_best (bestIndex s ! seed) (unat N) = Some (map (\<lambda>i. 5 * of_nat i) [0..<unat N])"
    using reseed_best_eq [of "unat N" "bestIndex s ! seed"] len by simp
  show ?thesis
    using seed len up rs
    by (simp add: generation_boundary_def boundary_def)
qed

lemma generate_candidate_eq:
  assumes ar: "arrays_ok s" and seed: "seed < length (nextToEvaluate s)"
    and nx: "nextToEvaluate s ! seed < M"
  shows "generate_candidate s seed dbl = Some (generated s seed dbl)"
proof -
  let ?K = "unat (MutationOperatorsNum s)"
  let ?nx = "unat (nextToEvaluate s ! seed)"
  have n20: "?nx < 20"
    using nx by (rule cursor_unat)
  have len: "seed < length (individual s)" "seed < length (p s)"
      "seed < length (currentRelativeProb s)" "length (p s ! seed) = ?K"
      "length (individual s ! seed) = 20" "length (individual s ! seed ! ?nx) = ?K"
    using ar seed n20 by (simp_all add: arrays_ok_def)
  have "sample_row dbl (p s ! seed) (individual s ! seed ! ?nx) ?K =
      Some (map (\<lambda>i. dbl i < p s ! seed ! i) [0..<?K])"
    using sample_row_eq [of ?K "individual s ! seed ! ?nx" "p s ! seed" dbl] len by simp
  then show ?thesis
    using seed len n20 nx
    by (simp add: generate_candidate_def generated_def)
qed

lemma length_memset_zero [simp]: "length (memset_zero a n) = length a"
  by (simp add: memset_zero_def)

lemma boundary_fields [simp]:
  "MutationOperatorsNum (boundary fl s seed) = MutationOperatorsNum s"
  "individual (boundary fl s seed) = individual s"
  "currentRelativeProb (boundary fl s seed) = currentRelativeProb s"
  "nextToEvaluate (boundary fl s seed) = (nextToEvaluate s)[seed := 0]"
  "bestIndex (boundary fl s seed) = (bestIndex s)[seed := map (\<lambda>i. 5 * of_nat i) [0..<unat N]]"
  "Fitness (boundary fl s seed) = (Fitness s)[seed := memset_zero (Fitness s ! seed) (unat M)]"
  by (simp_all add: boundary_def)

lemma generated_fields [simp]:
  "MutationOperatorsNum (generated s seed dbl) = MutationOperatorsNum s"
  "Fitness (generated s seed dbl) = Fitness s"
  "bestIndex (generated s seed dbl) = bestIndex s"
  "nextToEvaluate (generated s seed dbl) = nextToEvaluate s"
  "p (generated s seed dbl) = p s"
  "currentRelativeProb (generated s seed dbl) =
     (currentRelativeProb s)[seed := unat (nextToEvaluate s ! seed)]"
  by (simp_all add: generated_def)

lemma boundary_arrays_ok:
  assumes "arrays_ok s"
  shows "arrays_ok (boundary fl s seed)"
  using assms by (simp add: arrays_ok_def boundary_def nth_upd)

lemma stride_unat: "b < 4 \<Longrightarrow> unat (5 * of_nat b :: 32 word) = 5 * b"
  by (simp add: unat_word_ariths unat_of_nat)

lemma boundary_elites_ok:
  assumes "elites_ok s"
  shows "elites_ok (boundary fl s seed)"
  using assms by (simp add: elites_ok_def nth_upd stride_unat)

lemma generated_arrays_ok:
  assumes "arrays_ok s" and "nextToEvaluate s ! seed < M"
  shows "arrays_ok (generated s seed dbl)"
  using assms by (simp add: arrays_ok_def generated_def nth_upd)

lemma generated_elites_ok:
  assumes "elites_ok s"
  shows "elites_ok (generated s seed dbl)"
  using assms by (simp add: elites_ok_def)

lemma generated_cursors_ok:
  assumes "\<forall>sd < length (nextToEvaluate s). sd \<noteq> seed \<longrightarrow>
      nextToEvaluate s ! sd < M \<and> currentRelativeProb s ! sd = unat (nextToEvaluate s ! sd)"
    and "nextToEvaluate s ! seed < M"
    and "length (currentRelativeProb s) = length (nextToEvaluate s)"
  shows "cursors_ok (generated s seed dbl)"
  using assms by (simp add: cursors_ok_def nth_upd)

lemma cursor_step:
  assumes "nx < M" and "nx + 1 \<noteq> M"
  shows "nx + 1 < M"
proof -
  have "unat (nx + 1) = Suc (unat nx)"
    using assms(1) by (rule cursor_succ)
  moreover have "unat (nx + 1) \<noteq> unat M"
    using assms(2) by (simp add: word_unat_eq_iff)
  moreover have "unat nx < 20"
    using assms(1) by (rule cursor_unat)
  ultimately have "unat (nx + 1) < unat M"
    by simp
  then show ?thesis
    by (simp add: word_less_nat_alt)
qed

lemma NotifyFeedback_eq:
  assumes wf: "well_formed s" and seed: "seed < length (nextToEvaluate s)"
  shows "DARWIN_NotifyFeedback fl s seed numPaths dbl = Some (fed fl s seed numPaths dbl)"
proof -
  let ?s1 = "recorded s seed numPaths"
  let ?nx = "nextToEvaluate s ! seed"
  have nx: "?nx < M"
    using wf seed by (simp add: well_formed_def cursors_ok_def)
  have r: "record_fitness s seed numPaths = Some ?s1"
    using wf seed by (rule record_fitness_eq)
  have ar1: "arrays_ok ?s1"
    using wf by (simp add: well_formed_def recorded_arrays_ok)
  have el1: "elites_ok ?s1"
    using wf seed by (rule recorded_elites_ok)
  have seed1: "seed < length (nextToEvaluate ?s1)"
    using seed by simp
  have c: "cell (nextToEvaluate ?s1) seed = Some (?nx + 1)"
    using seed by simp
  show ?thesis
  proof (cases "?nx + 1 = M")
    case True
    have b: "generation_boundary fl ?s1 seed = Some (boundary fl ?s1 seed)"
      using ar1 el1 seed1 by (rule generation_boundary_eq)
    have "generate_candidate (boundary fl ?s1 seed) seed dbl = Some (generated (boundary fl ?s1 seed) seed dbl)"
    proof (rule generate_candidate_eq)
      show "arrays_ok (boundary fl ?s1 seed)"
        using ar1 by (rule boundary_arrays_ok)
      show "seed < length (nextToEvaluate (boundary fl ?s1 seed))"
        using seed by simp
      show "nextToEvaluate (boundary fl ?s1 seed) ! seed < M"
        using seed by (simp add: M_def)
    qed
    with r c b True show ?thesis
      by (simp add: DARWIN_NotifyFeedback_def fed_def Let_def)
  next
    case False
    have "nextToEvaluate ?s1 ! seed < M"
      using cursor_step [OF nx False] seed by simp
    with ar1 seed1 have "generate_candidate ?s1 seed dbl = Some (generated ?s1 seed dbl)"
      by (rule generate_candidate_eq)
    with r c False show ?thesis
      by (simp add: DARWIN_NotifyFeedback_def fed_def Let_def)
  qed
qed

lemma fed_cursor:
  assumes "seed < length (nextToEvaluate s)"
  shows "nextToEvaluate (fed fl s seed numPaths dbl) =
     (nextToEvaluate s)[seed := (if nextToEvaluate s ! seed + 1 = M then 0 else nextToEvaluate s ! seed + 1)]"
  using assms by (simp add: fed_def Let_def)

lemma fed_well_formed:
  assumes wf: "well_formed s" and seed: "seed < length (nextToEvaluate s)"
  shows "well_formed (fed fl s seed numPaths dbl)"
proof -
  let ?s1 = "recorded s seed numPaths"
  let ?nx = "nextToEvaluate s ! seed"
  let ?s2 = "if ?nx + 1 = M then boundary fl ?s1 seed else ?s1"
  have nx: "?nx < M"
    using wf seed by (simp add: well_formed_def cursors_ok_def)
  have ar1: "arrays_ok ?s1"
    using wf by (simp add: well_formed_def recorded_arrays_ok)
  have el1: "elites_ok ?s1"
    using wf seed by (rule recorded_elites_ok)
  have ar2: "arrays_ok ?s2"
    using ar1 by (simp add: boundary_arrays_ok)
  have el2: "elites_ok ?s2"
    using el1 by (simp add: boundary_elites_ok)
  have nx2: "nextToEvaluate ?s2 ! seed < M"
    using seed cursor_step [OF nx] by (simp add: M_def)
  have others: "\<forall>sd < length (nextToEvaluate ?s2). sd \<noteq> seed \<longrightarrow>
      nextToEvaluate ?s2 ! sd < M \<and> currentRelativeProb ?s2 ! sd = unat (nextToEvaluate ?s2 ! sd)"
    using wf by (simp add: well_formed_def cursors_ok_def)
  have len: "length (currentRelativeProb ?s2) = length (nextToEvaluate ?s2)"
    using wf by (simp add: well_formed_def arrays_ok_def)
  have "arrays_ok (generated ?s2 seed dbl)"
    using ar2 nx2 by (rule generated_arrays_ok)
  moreover have "elites_ok (generated ?s2 seed dbl)"
    using el2 by (rule generated_elites_ok)
  moreover have "cursors_ok (generated ?s2 seed dbl)"
    using others nx2 len by (rule generated_cursors_ok)
  ultimately show ?thesis
    by (simp add: well_formed_def fed_def Let_def)
qed

lemma init_well_formed:
  assumes "DARWIN_init h nr_seeds nr_mutations = Some s"
  shows "well_formed s"
proof -
  have "nr_seeds \<le> 2147483647"
    using assms by (simp add: DARWIN_init_def split: if_splits)
  then have s: "s = \<lparr> MutationOperatorsNum = nr_mutations,
               Fitness = map (\<lambda>seed. memset_zero (map (heap_Fitness h seed) [0..<unat M]) (unat M)) [0..<unat nr_seeds],
               bestIndex = map (\<lambda>seed. map (\<lambda>i. 5 * of_nat i) [0..<unat N]) [0..<unat nr_seeds],
               nextToEvaluate = map (\<lambda>seed. 0) [0..<unat nr_seeds],
               individual = map (\<lambda>seed.
                   (map (\<lambda>k. map (heap_individual h seed k) [0..<unat nr_mutations]) [0..<unat M])
                     [0 := map (\<lambda>i. RAND_MAX h div 2 < rand h (seed * unat nr_mutations + i)) [0..<unat nr_mutations]]) [0..<unat nr_seeds],
               currentRelativeProb = map (\<lambda>seed. 0) [0..<unat nr_seeds],
               p = map (\<lambda>seed. replicate (unat nr_mutations) (1 / 2)) [0..<unat nr_seeds] \<rparr>"
    using assms by (simp add: DARWIN_init_def Let_def)
  have "arrays_ok s"
    unfolding s by (simp add: arrays_ok_def nth_upd)
  moreover have "elites_ok s"
    unfolding s by (simp add: elites_ok_def stride_unat)
  moreover have "cursors_ok s"
    unfolding s by (simp add: cursors_ok_def M_def)
  ultimately show ?thesis
    by (simp add: well_formed_def)
qed

lemma run_well_formed:
  assumes "well_formed s" and "\<forall>c \<in> set calls. fst c < length (nextToEvaluate s)"
  shows "\<exists>s'. run fl s calls = Some s' \<and> well_formed s' \<and>
     length (nextToEvaluate s') = length (nextToEvaluate s) \<and>
     MutationOperatorsNum s' = MutationOperatorsNum s"
  using assms
proof (induction calls arbitrary: s)
  case Nil
  then show ?case by simp
next
  case (Cons c calls)
  obtain seed numPaths dbl where c: "c = (seed, numPaths, dbl)"
    by (cases c) auto
  let ?s1 = "fed fl s seed numPaths dbl"
  have seed: "seed < length (nextToEvaluate s)"
    using Cons.prems(2) c by simp
  have step: "DARWIN_NotifyFeedback fl s seed numPaths dbl = Some ?s1"
    using Cons.prems(1) seed by (rule NotifyFeedback_eq)
  have wf1: "well_formed ?s1"
    using Cons.prems(1) seed by (rule fed_well_formed)
  have len1: "length (nextToEvaluate ?s1) = length (nextToEvaluate s)"
    using seed by (simp add: fed_cursor)
  have k1: "MutationOperatorsNum ?s1 = MutationOperatorsNum s"
    by (simp add: fed_def Let_def)
  have "\<forall>c \<in> set calls. fst c < length (nextToEvaluate ?s1)"
    using Cons.prems(2) len1 by simp
  from Cons.IH [OF wf1 this] step c len1 k1 show ?case
    by simp
qed

lemma rounding_near:
  assumes "double_rounding fl" and "0 \<le> x" and "x \<le> 2"
  shows "x - 1 / 100 \<le> fl x" and "fl x \<le> x + 1 / 100"
proof -
  have "\<bar>fl x - x\<bar> \<le> 1 / 100"
    using assms by (simp add: double_rounding_def)
  then show "x - 1 / 100 \<le> fl x" and "fl x \<le> x + 1 / 100"
    by linarith+
qed

lemma rounding_mono:
  assumes "double_rounding fl" and "x \<le> y"
  shows "fl x \<le> fl y"
  using assms by (simp add: double_rounding_def)

lemma smooth_bounds:
  assumes R: "double_rounding fl" and x: "0 \<le> x" "x \<le> 1" and c: "1 \<le> c" "c \<le> 3"
  shows "0 \<le> smooth fl x c \<and> smooth fl x c \<le> 1"
proof -
  define a where "a = fl (3 / 10)"
  define b where "b = fl (1 - a)"
  define u where "u = fl (b * x)"
  define v where "v = fl (a * of_int c)"
  define w where "w = fl (v / 4)"
  have a: "29 / 100 \<le> a" "a \<le> 31 / 100"
    using rounding_near [OF R, of "3 / 10"] unfolding a_def by linarith+
  have b: "68 / 100 \<le> b" "b \<le> 72 / 100"
    using rounding_near [OF R, of "1 - a"] a unfolding b_def by linarith+
  have bx: "0 \<le> b * x" "b * x \<le> 72 / 100"
  proof -
    show "0 \<le> b * x" using b x by simp
    have "b * x \<le> b"
      using b x by (intro mult_left_le) simp_all
    with b show "b * x \<le> 72 / 100" by linarith
  qed
  have u: "0 \<le> u" "u \<le> 73 / 100"
  proof -
    have "fl 0 \<le> fl (b * x)"
      using R bx(1) by (rule rounding_mono)
    then show "0 \<le> u"
      using R by (simp add: u_def double_rounding_def)
    show "u \<le> 73 / 100"
      using rounding_near(2) [OF R, of "b * x"] bx unfolding u_def by linarith
  qed
  have cr: "1 \<le> (of_int c :: real)" "(of_int c :: real) \<le> 3"
    using c by simp_all
  have ac: "29 / 100 \<le> a * of_int c" "a * of_int c \<le> 93 / 100"
  proof -
    have "a * 1 \<le> a * of_int c"
      using a cr by (intro mult_left_mono) simp_all
    with a show "29 / 100 \<le> a * of_int c" by linarith
    have "a * of_int c \<le> a * 3"
      using a cr by (intro mult_left_mono) simp_all
    with a show "a * of_int c \<le> 93 / 100" by linarith
  qed
  have v: "28 / 100 \<le> v" "v \<le> 94 / 100"
    using rounding_near [OF R, of "a * of_int c"] ac unfolding v_def by linarith+
  have w: "0 \<le> w" "w \<le> 25 / 100"
    using rounding_near [OF R, of "v / 4"] v unfolding w_def by linarith+
  have "0 \<le> u + w" "u + w \<le> 1"
    using u w by linarith+
  then have "fl 0 \<le> fl (u + w)" "fl (u + w) \<le> fl 1"
    using R by (simp_all add: rounding_mono)
  moreover have "smooth fl x c = fl (u + w)"
    by (simp add: smooth_def LEARNING_RATE_def u_def w_def v_def b_def a_def)
  ultimately show ?thesis
    using R by (simp add: double_rounding_def)
qed

lemma elite_count_range: "0 \<le> elite_count inds best i n \<and> elite_count inds best i n \<le> int n"
proof -
  have "length (filter (\<lambda>j. inds ! unat (best ! j) ! i) [0..<n]) \<le> length [0..<n]"
    by (rule length_filter_le)
  then show ?thesis
    by (simp add: elite_count_def)
qed

lemma clamp_sum_range:
  assumes "0 \<le> k" and "k \<le> 4"
  shows "1 \<le> clamp_sum k \<and> clamp_sum k \<le> 3"
proof -
  from assms have "k = 0 \<or> k = 1 \<or> k = 2 \<or> k = 3 \<or> k = 4"
    by presburger
  then show ?thesis
    by (auto simp add: clamp_sum_def N_def Let_def)
qed

lemma fed_p:
  "p (fed fl s seed numPaths dbl) =
     (if nextToEvaluate s ! seed + 1 = M
      then (p s)[seed := map (\<lambda>i. smooth fl (p s ! seed ! i)
              (clamp_sum (elite_count (individual s ! seed)
                 (bestIndex (recorded s seed numPaths) ! seed) i (unat N))))
            [0..<unat (MutationOperatorsNum s)]]
      else p s)"
  by (simp add: fed_def Let_def boundary_def)

lemma fed_probs_ok:
  assumes R: "double_rounding fl" and wf: "well_formed s"
    and seed: "seed < length (nextToEvaluate s)" and ok: "probs_ok s"
  shows "probs_ok (fed fl s seed numPaths dbl)"
proof (cases "nextToEvaluate s ! seed + 1 = M")
  case False
  with ok show ?thesis
    by (simp add: probs_ok_def fed_p)
next
  case True
  let ?best = "bestIndex (recorded s seed numPaths) ! seed"
  let ?row = "map (\<lambda>i. smooth fl (p s ! seed ! i)
              (clamp_sum (elite_count (individual s ! seed) ?best i (unat N))))
            [0..<unat (MutationOperatorsNum s)]"
  have len: "seed < length (p s)" "length (p s ! seed) = unat (MutationOperatorsNum s)"
    using wf seed by (simp_all add: well_formed_def arrays_ok_def)
  have new: "\<forall>x \<in> set ?row. 0 \<le> x \<and> x \<le> 1"
  proof
    fix x assume "x \<in> set ?row"
    then obtain i where i: "i < unat (MutationOperatorsNum s)"
      and x: "x = smooth fl (p s ! seed ! i) (clamp_sum (elite_count (individual s ! seed) ?best i (unat N)))"
      by auto
    have "p s ! seed ! i \<in> set (p s ! seed)" "p s ! seed \<in> set (p s)"
      using i len by simp_all
    then have old: "0 \<le> p s ! seed ! i" "p s ! seed ! i \<le> 1"
      using ok by (auto simp add: probs_ok_def)
    have "1 \<le> clamp_sum (elite_count (individual s ! seed) ?best i (unat N)) \<and>
          clamp_sum (elite_count (individual s ! seed) ?best i (unat N)) \<le> 3"
      using elite_count_range [of "individual s ! seed" ?best i "unat N"]
      by (intro clamp_sum_range) simp_all
    with R old show "0 \<le> x \<and> x \<le> 1"
      unfolding x by (intro smooth_bounds) simp_all
  qed
  show ?thesis
    unfolding probs_ok_def
  proof
    fix row assume "row \<in> set (p (fed fl s seed numPaths dbl))"
    then have "row \<in> set ((p s)[seed := ?row])"
      using True by (simp add: fed_p)
    then have "row = ?row \<or> row \<in> set (p s)"
      using set_update_subset_insert [of "p s" seed ?row] by auto
    then show "\<forall>x \<in> set row. 0 \<le> x \<and> x \<le> 1"
      using new ok by (auto simp add: probs_ok_def)
  qed
qed

lemma run_invariant:
  assumes wf: "well_formed s" and seeds: "\<forall>c \<in> set calls. fst c < length (nextToEvaluate s)"
    and inv: "I s"
    and step: "\<And>s seed numPaths dbl. well_formed s \<Longrightarrow> seed < length (nextToEvaluate s) \<Longrightarrow>
        I s \<Longrightarrow> I (fed fl s seed numPaths dbl)"
  shows "\<exists>s'. run fl s calls = Some s' \<and> well_formed s' \<and> I s' \<and>
     length (nextToEvaluate s') = length (nextToEvaluate s) \<and>
     MutationOperatorsNum s' = MutationOperatorsNum s"
  using wf seeds inv
proof (induction calls arbitrary: s)
  case Nil
  then show ?case by simp
next
  case (Cons c calls)
  obtain seed numPaths dbl where c: "c = (seed, numPaths, dbl)"
    by (cases c) auto
  let ?s1 = "fed fl s seed numPaths dbl"
  have seed: "seed < length (nextToEvaluate s)"
    using Cons.prems(2) c by simp
  have st: "DARWIN_NotifyFeedback fl s seed numPaths dbl = Some ?s1"
    using Cons.prems(1) seed by (rule NotifyFeedback_eq)
  have wf1: "well_formed ?s1"
    using Cons.prems(1) seed by (rule fed_well_formed)
  have inv1: "I ?s1"
    using Cons.prems(1) seed Cons.prems(3) by (rule step)
  have len1: "length (nextToEvaluate ?s1) = length (nextToEvaluate s)"
    using seed by (simp add: fed_cursor)
  have k1: "MutationOperatorsNum ?s1 = MutationOperatorsNum s"
    by (simp add: fed_def Let_def)
  have "\<forall>c \<in> set calls. fst c < length (nextToEvaluate ?s1)"
    using Cons.prems(2) len1 by simp
  from Cons.IH [OF wf1 this inv1] st c len1 k1 show ?case
    by simp
qed

lemma init_fields:
  assumes "DARWIN_init h nr_seeds nr_mutations = Some s"
  shows "length (nextToEvaluate s) = unat nr_seeds"
    and "MutationOperatorsNum s = nr_mutations"
    and "p s = replicate (unat nr_seeds) (replicate (unat nr_mutations) (1 / 2))"
proof -
  have s: "DARWIN_init h nr_seeds nr_mutations = Some s \<and> nr_seeds \<le> 2147483647"
    using assms by (simp add: DARWIN_init_def split: if_splits)
  then show "length (nextToEvaluate s) = unat nr_seeds"
    by (auto simp add: DARWIN_init_def Let_def)
  from s show "MutationOperatorsNum s = nr_mutations"
    by (auto simp add: DARWIN_init_def Let_def)
  from s show "p s = replicate (unat nr_seeds) (replicate (unat nr_mutations) (1 / 2))"
    by (auto simp add: DARWIN_init_def Let_def map_replicate_const)
qed

lemma bucket_word:
  assumes "5 * b \<le> unat e" and "unat e < 5 * b + 5" and "b < 4"
  shows "e * N div M = (of_nat b :: 32 word)"
proof -
  have "unat e < 20"
    using assms by simp
  then have "e < M"
    by (simp add: word_less_nat_alt)
  then have "unat (e * N div M) = unat e div 5"
    by (rule bucket_unat)
  also have "\<dots> = b"
    using assms by simp
  also have "\<dots> = unat (of_nat b :: 32 word)"
    using assms(3) by (simp add: unat_of_nat)
  finally show ?thesis
    by (simp add: word_unat_eq_iff)
qed

lemma init_bestIndex:
  assumes "DARWIN_init h nr_seeds nr_mutations = Some s"
  shows "bestIndex s = replicate (unat nr_seeds) (map (\<lambda>i. 5 * of_nat i) [0..<unat N])"
proof -
  have "DARWIN_init h nr_seeds nr_mutations = Some s \<and> nr_seeds \<le> 2147483647"
    using assms by (simp add: DARWIN_init_def split: if_splits)
  then show ?thesis
    by (auto simp add: DARWIN_init_def Let_def map_replicate_const)
qed




lemma clamp_sum_cases:
  assumes "0 \<le> k" and "k \<le> 4"
  shows "clamp_sum k = (if k = 4 then 3 else if k = 0 then 1 else k)"
proof -
  from assms have "k = 0 \<or> k = 1 \<or> k = 2 \<or> k = 3 \<or> k = 4"
    by presburger
  then show ?thesis
    by (auto simp add: clamp_sum_def N_def Let_def)
qed

lemma less_4_cases: "b < 4 \<longleftrightarrow> b = 0 \<or> b = 1 \<or> b = 2 \<or> b = (3 :: nat)"
  by presburger

lemma test_state_well_formed:
  assumes "nx < M" and "length cand = 2"
  shows "well_formed (test_state nx cand)"
proof -
  have "arrays_ok (test_state nx cand)"
    using assms(2) by (simp add: arrays_ok_def test_state_def)
  moreover have "elites_ok (test_state nx cand)"
    by (auto simp add: elites_ok_def test_state_def less_4_cases)
  moreover have "cursors_ok (test_state nx cand)"
    using assms(1) by (simp add: cursors_ok_def test_state_def)
  ultimately show ?thesis
    by (simp add: well_formed_def)
qed

lemma probe_next:
  assumes "unat operatorId < unat (K :: 32 word)"
  shows "unat ((operatorId + 1) mod K) = Suc (unat operatorId) mod unat K"
proof -
  have "unat K < 2 ^ 32"
    using unsigned_less [of K] by simp
  with assms have "unat (operatorId + 1) = Suc (unat operatorId)"
    by (simp add: unat_word_ariths)
  then show ?thesis
    by (simp add: unat_mod)
qed

lemma tries_next:
  assumes "nTries < (K :: 32 word)"
  shows "unat (nTries + 1) = Suc (unat nTries)"
proof -
  have "unat K < 2 ^ 32"
    using unsigned_less [of K] by simp
  moreover have "unat nTries < unat K"
    using assms by (simp add: word_less_nat_alt)
  ultimately show ?thesis
    by (simp add: unat_word_ariths)
qed

lemma select_loop_returns:
  assumes "unat operatorId < unat K" and "length cand = unat K"
  shows "\<exists>w. select_loop cand K operatorId nTries = Some w \<and> w < K"
  using assms
proof (induction cand K operatorId nTries rule: select_loop.induct)
  case (1 cand K operatorId nTries)
  show ?case
  proof (cases "cand ! unat operatorId = False \<and> nTries < K")
    case True
    have "unat ((operatorId + 1) mod K) < unat K"
      using "1.prems"(1) by (simp add: probe_next)
    then have "\<exists>w. select_loop cand K ((operatorId + 1) mod K) (nTries + 1) = Some w \<and> w < K"
      using "1.IH" "1.prems" True by simp
    then show ?thesis
      using True "1.prems" by (subst select_loop.simps) simp
  next
    case False
    have "operatorId < K"
      using "1.prems"(1) by (simp add: word_less_nat_alt)
    then show ?thesis
      using False "1.prems" by (subst select_loop.simps) auto
  qed
qed

lemma select_loop_probe:
  assumes "length cand = unat K" and "unat operatorId < unat K"
    and "cand ! ((unat operatorId + t) mod unat K)"
    and "\<forall>t'<t. \<not> cand ! ((unat operatorId + t') mod unat K)"
    and "unat nTries + t \<le> unat K"
  shows "select_loop cand K operatorId nTries = Some (of_nat ((unat operatorId + t) mod unat K))"
  using assms
proof (induction t arbitrary: operatorId nTries)
  case 0
  then show ?case
    by (subst select_loop.simps) simp
next
  case (Suc t)
  have off: "\<not> cand ! unat operatorId"
    using Suc.prems(4) [rule_format, of 0] Suc.prems(2) by simp
  have tries: "nTries < K"
    using Suc.prems(5) by (simp add: word_less_nat_alt)
  let ?op = "(operatorId + 1) mod K"
  have nxt: "unat ?op = Suc (unat operatorId) mod unat K"
    using Suc.prems(2) by (rule probe_next)
  have shift: "(unat ?op + t') mod unat K = (unat operatorId + Suc t') mod unat K" for t'
    unfolding nxt by (simp add: mod_simps)
  have "select_loop cand K ?op (nTries + 1) = Some (of_nat ((unat ?op + t) mod unat K))"
  proof (rule Suc.IH)
    show "length cand = unat K"
      by (rule Suc.prems(1))
    show "unat ?op < unat K"
      using Suc.prems(2) nxt by simp
    show "cand ! ((unat ?op + t) mod unat K)"
      using Suc.prems(3) by (simp only: shift)
    show "\<forall>t'<t. \<not> cand ! ((unat ?op + t') mod unat K)"
      using Suc.prems(4) by (simp only: shift) auto
    show "unat (nTries + 1) + t \<le> unat K"
      using Suc.prems(5) tries_next [OF tries] by simp
  qed
  then have "select_loop cand K ?op (nTries + 1) = Some (of_nat ((unat operatorId + Suc t) mod unat K))"
    by (simp only: shift)
  then show ?case
    using off tries Suc.prems(1,2) by (subst select_loop.simps) simp
qed

lemma first_on:
  assumes "\<exists>i < k. cand ! i" and "r < (k :: nat)"
  shows "\<exists>t < k. cand ! ((r + t) mod k) \<and> (\<forall>t' < t. \<not> cand ! ((r + t') mod k))"
proof -
  from assms(1) obtain i where i: "i < k" "cand ! i"
    by blast
  define d where "d = (i + k - r) mod k"
  have "(r + d) mod k = i"
  proof -
    have "(r + d) mod k = (r + (i + k - r)) mod k"
      by (simp add: d_def mod_simps)
    also have "r + (i + k - r) = i + k"
      using assms(2) by simp
    finally show ?thesis
      using i(1) by simp
  qed
  then have ex: "cand ! ((r + d) mod k)"
    using i(2) by simp
  define t where "t = (LEAST t. cand ! ((r + t) mod k))"
  have "cand ! ((r + t) mod k)"
    unfolding t_def using ex by (rule LeastI)
  moreover have "\<forall>t' < t. \<not> cand ! ((r + t') mod k)"
    unfolding t_def using not_less_Least by blast
  moreover have "t \<le> d"
    unfolding t_def using ex by (rule Least_le)
  moreover have "d < k"
    using assms(2) by (simp add: d_def)
  ultimately have "t < k \<and> cand ! ((r + t) mod k) \<and> (\<forall>t' < t. \<not> cand ! ((r + t') mod k))"
    by simp
  then show ?thesis
    by blast
qed

lemma candidate_row:
  assumes wf: "well_formed s" and seed: "seed < length (nextToEvaluate s)"
  shows "seed < length (currentRelativeProb s)" "seed < length (individual s)"
    "currentRelativeProb s ! seed < length (individual s ! seed)"
    "length (individual s ! seed ! (currentRelativeProb s ! seed)) = unat (MutationOperatorsNum s)"
proof -
  have nx: "currentRelativeProb s ! seed < 20"
    using wf seed by (simp add: well_formed_def cursors_ok_def cursor_unat)
  show "seed < length (currentRelativeProb s)" "seed < length (individual s)"
    using wf seed by (simp_all add: well_formed_def arrays_ok_def)
  show "currentRelativeProb s ! seed < length (individual s ! seed)"
    using wf seed nx by (simp add: well_formed_def arrays_ok_def)
  show "length (individual s ! seed ! (currentRelativeProb s ! seed)) = unat (MutationOperatorsNum s)"
    using wf seed nx by (simp add: well_formed_def arrays_ok_def)
qed

lemma id_as_int:
  assumes "w < (K :: 32 word)" and "unat K \<le> 2 ^ 31"
  shows "sint w = int (unat w)"
proof -
  have "unat w < 2 ^ 31"
    using assms by (simp add: word_less_nat_alt)
  then have "int (unat w) < 2 ^ 31"
    by (simp only: of_nat_less_numeral_power_cancel_iff)
  then have small: "uint w < 2 ^ 31"
    by simp
  have "sint w = signed_take_bit 31 (uint w)"
    by (simp add: sint_uint)
  also have "\<dots> = uint w"
  proof (rule signed_take_bit_int_eq_self)
    have "0 \<le> uint w"
      by simp
    then show "- (2 ^ 31) \<le> uint w"
      using order_trans [of "- (2 ^ 31)" 0 "uint w"] by simp
    show "uint w < 2 ^ 31"
      by (rule small)
  qed
  finally show ?thesis
    by simp
qed

lemma memset_zero_M:
  assumes "length a = 20"
  shows "memset_zero a (unat M) = replicate 5 0 @ drop 5 a"
proof (rule nth_equalityI)
  show "length (memset_zero a (unat M)) = length (replicate 5 0 @ drop 5 a)"
    using assms by simp
next
  fix k
  assume "k < length (memset_zero a (unat M))"
  then have k: "k < 20"
    using assms by simp
  show "memset_zero a (unat M) ! k = (replicate 5 0 @ drop 5 a) ! k"
  proof (cases "k < 5")
    case True
    then show ?thesis
      using k assms by (simp add: memset_zero_def nth_append)
  next
    case False
    then show ?thesis
      using k assms by (simp add: memset_zero_def nth_append)
  qed
qed


lemma init_Fitness:
  assumes "DARWIN_init h nr_seeds nr_mutations = Some s" and "seed < unat nr_seeds"
  shows "Fitness s ! seed = replicate 5 0 @ map (heap_Fitness h seed) [5..<20]"
proof -
  have "DARWIN_init h nr_seeds nr_mutations = Some s \<and> nr_seeds \<le> 2147483647"
    using assms(1) by (simp add: DARWIN_init_def split: if_splits)
  then have "Fitness s ! seed = memset_zero (map (heap_Fitness h seed) [0..<unat M]) (unat M)"
    using assms(2) by (auto simp add: DARWIN_init_def Let_def simp del: unat_M)
  also have "\<dots> = replicate 5 0 @ drop 5 (map (heap_Fitness h seed) [0..<unat M])"
    by (intro memset_zero_M) simp
  finally show ?thesis
    by (simp add: drop_map)
qed




section \<open>Properties\<close>

text \<open>
  C10: \<^verbatim>\<open>DARWIN_get_parent_repr\<close> returns the constant 0 for every seed argument and every
  engine state, whatever calls came before, and leaves the engine state as it is.
\<close>

theorem get_parent_repr_zero:
  "DARWIN_get_parent_repr s seed = (0, s)"
  by (simp add: DARWIN_get_parent_repr_def)

text \<open>
  C1: every learned probability is 0.5 after \<^verbatim>\<open>DARWIN_init\<close>, and after any history of
  feedback calls on valid seeds (which all return) every \<open>p[seed][i]\<close> lies between 0 and 1.
  This holds for every rounding of the floating-point operations that is monotone, exact
  on 0 and 1 and off by at most a hundredth.
\<close>

theorem probabilities_stay_in_unit_interval:
  assumes "double_rounding fl"
    and "DARWIN_init h nr_seeds nr_mutations = Some s0"
    and "\<forall>c \<in> set calls. fst c < unat nr_seeds"
  shows "(\<forall>seed < unat nr_seeds. \<forall>i < unat nr_mutations. p s0 ! seed ! i = 1 / 2) \<and>
         (\<exists>s. run fl s0 calls = Some s \<and>
            (\<forall>seed < unat nr_seeds. \<forall>i < unat nr_mutations.
               0 \<le> p s ! seed ! i \<and> p s ! seed ! i \<le> 1))"
proof -
  note f = init_fields [OF assms(2)]
  have wf0: "well_formed s0"
    using assms(2) by (rule init_well_formed)
  have ok0: "probs_ok s0"
    by (auto simp add: probs_ok_def f(3))
  have seeds: "\<forall>c \<in> set calls. fst c < length (nextToEvaluate s0)"
    using assms(3) f(1) by simp
  obtain s where s: "run fl s0 calls = Some s" "well_formed s" "probs_ok s"
      "length (nextToEvaluate s) = length (nextToEvaluate s0)"
      "MutationOperatorsNum s = MutationOperatorsNum s0"
    using run_invariant [of s0 calls probs_ok fl, OF wf0 seeds ok0 fed_probs_ok [OF assms(1)]]
    by blast
  have "0 \<le> p s ! seed ! i \<and> p s ! seed ! i \<le> 1"
    if "seed < unat nr_seeds" "i < unat nr_mutations" for seed i
  proof -
    have "seed < length (p s)" "length (p s ! seed) = unat nr_mutations"
      using s(2,4,5) f(1,2) that(1) by (simp_all add: well_formed_def arrays_ok_def)
    then have "p s ! seed \<in> set (p s)" "p s ! seed ! i \<in> set (p s ! seed)"
      using that(2) by simp_all
    with s(3) show ?thesis
      by (auto simp add: probs_ok_def)
  qed
  with s(1) f(3) show ?thesis
    by simp
qed

theorem probabilities_stay_in_unit_interval_witness:
  "double_rounding (\<lambda>x. x) \<and>
   (\<exists>s0 s. DARWIN_init test_host 1 2 = Some s0 \<and>
      p s0 ! 0 ! 1 = 1 / 2 \<and>
      run (\<lambda>x. x) s0 (replicate 20 (0, 3, \<lambda>i. 1 / 4)) = Some s \<and>
      nextToEvaluate s ! 0 = 0 \<and> p s ! 0 ! 1 = 23 / 40 \<and>
      0 \<le> p s ! 0 ! 1 \<and> p s ! 0 ! 1 \<le> 1)"
proof -
  let ?calls = "replicate 20 (0 :: nat, 3 :: 32 word, \<lambda>i :: nat. 1 / 4 :: real)"
  have R: "double_rounding (\<lambda>x. x)"
    by (simp add: double_rounding_def)
  obtain s0 where I: "DARWIN_init test_host 1 2 = Some s0"
    by (simp add: DARWIN_init_def Let_def)
  have C: "\<forall>c \<in> set ?calls. fst c < unat (1 :: 64 word)"
    by simp
  from probabilities_stay_in_unit_interval [OF R I C] obtain s
    where a: "\<forall>seed < unat (1 :: 64 word). \<forall>i < unat (2 :: 32 word). p s0 ! seed ! i = 1 / 2"
      and r: "run (\<lambda>x. x) s0 ?calls = Some s"
      and b: "\<forall>seed < unat (1 :: 64 word). \<forall>i < unat (2 :: 32 word).
               0 \<le> p s ! seed ! i \<and> p s ! seed ! i \<le> 1"
    by blast
  have eval: "DARWIN_init test_host 1 2 \<bind> (\<lambda>s0. run (\<lambda>x. x) s0 ?calls \<bind>
      (\<lambda>s. Some (nextToEvaluate s ! 0, p s ! 0 ! 1))) = Some (0, 23 / 40)"
    by code_simp
  have after: "nextToEvaluate s ! 0 = 0" "p s ! 0 ! 1 = 23 / 40"
    using eval I r by simp_all
  have k: "(0 :: nat) < unat (1 :: 64 word)" "(1 :: nat) < unat (2 :: 32 word)"
    by simp_all
  have "p s0 ! 0 ! 1 = 1 / 2"
    using a [rule_format, OF k] .
  moreover have "0 \<le> p s ! 0 ! 1 \<and> p s ! 0 ! 1 \<le> 1"
    using b [rule_format, OF k] .
  ultimately show ?thesis
    using R I r after by blast
qed

text \<open>
  C9: after \<^verbatim>\<open>DARWIN_init\<close> the elite index of bucket \<open>b\<close> is \<open>5 * b\<close>, and after any history
  of feedback calls on valid seeds it lies in the bucket's own stride range, from \<open>5 * b\<close>
  up to but not including \<open>5 * b + 5\<close>; equivalently \<^verbatim>\<open>bestIndex[b] * N / M == b\<close>.
\<close>

theorem elite_stays_in_own_bucket:
  assumes "DARWIN_init h nr_seeds nr_mutations = Some s0"
    and "\<forall>c \<in> set calls. fst c < unat nr_seeds"
  shows "(\<forall>seed < unat nr_seeds. \<forall>b < unat N. bestIndex s0 ! seed ! b = 5 * of_nat b) \<and>
         (\<exists>s. run fl s0 calls = Some s \<and>
            (\<forall>seed < unat nr_seeds. \<forall>b < unat N.
               5 * b \<le> unat (bestIndex s ! seed ! b) \<and>
               unat (bestIndex s ! seed ! b) < 5 * b + 5 \<and>
               bestIndex s ! seed ! b * N div M = of_nat b))"
proof -
  note f = init_fields [OF assms(1)]
  have wf0: "well_formed s0"
    using assms(1) by (rule init_well_formed)
  have seeds: "\<forall>c \<in> set calls. fst c < length (nextToEvaluate s0)"
    using assms(2) f(1) by simp
  obtain s where s: "run fl s0 calls = Some s" "well_formed s"
      "length (nextToEvaluate s) = length (nextToEvaluate s0)"
    using run_well_formed [OF wf0 seeds, of fl] by blast
  have "5 * b \<le> unat (bestIndex s ! seed ! b) \<and> unat (bestIndex s ! seed ! b) < 5 * b + 5 \<and>
        bestIndex s ! seed ! b * N div M = of_nat b"
    if "seed < unat nr_seeds" "b < unat N" for seed b
  proof -
    have "seed < length (bestIndex s)"
      using s(2,3) f(1) that(1) by (simp add: well_formed_def arrays_ok_def)
    then have in_range: "5 * b \<le> unat (bestIndex s ! seed ! b)" "unat (bestIndex s ! seed ! b) < 5 * b + 5"
      using s(2) that(2) by (simp_all add: well_formed_def elites_ok_def)
    moreover have "bestIndex s ! seed ! b * N div M = of_nat b"
      using in_range that(2) by (intro bucket_word) simp_all
    ultimately show ?thesis
      by simp
  qed
  moreover have "\<forall>seed < unat nr_seeds. \<forall>b < unat N. bestIndex s0 ! seed ! b = 5 * of_nat b"
    by (simp add: init_bestIndex [OF assms(1)])
  ultimately show ?thesis
    using s(1) by blast
qed

theorem elite_stays_in_own_bucket_witness:
  "\<exists>s0 s. DARWIN_init test_host 2 3 = Some s0 \<and>
      bestIndex s0 ! 1 ! 2 = 10 \<and>
      run (\<lambda>x. x) s0 [(1, 3, \<lambda>i. 1 / 4), (1, 9, \<lambda>i. 3 / 4)] = Some s \<and>
      10 \<le> unat (bestIndex s ! 1 ! 2) \<and> unat (bestIndex s ! 1 ! 2) < 15 \<and>
      bestIndex s ! 1 ! 2 * N div M = 2"
proof -
  obtain s0 where I: "DARWIN_init test_host 2 3 = Some s0"
    by (simp add: DARWIN_init_def Let_def)
  have C: "\<forall>c \<in> set [(1 :: nat, 3 :: 32 word, \<lambda>i :: nat. 1 / 4 :: real), (1, 9, \<lambda>i. 3 / 4)].
      fst c < unat (2 :: 64 word)"
    by simp
  from elite_stays_in_own_bucket [OF I C, of "\<lambda>x. x"] obtain s
    where a: "\<forall>seed < unat (2 :: 64 word). \<forall>b < unat N. bestIndex s0 ! seed ! b = 5 * of_nat b"
      and r: "run (\<lambda>x. x) s0 [(1, 3, \<lambda>i. 1 / 4), (1, 9, \<lambda>i. 3 / 4)] = Some s"
      and b: "\<forall>seed < unat (2 :: 64 word). \<forall>b < unat N.
               5 * b \<le> unat (bestIndex s ! seed ! b) \<and>
               unat (bestIndex s ! seed ! b) < 5 * b + 5 \<and>
               bestIndex s ! seed ! b * N div M = of_nat b"
    by blast
  have k: "(1 :: nat) < unat (2 :: 64 word)" "(2 :: nat) < unat N"
    by simp_all
  have "bestIndex s0 ! 1 ! 2 = 10"
    using a [rule_format, OF k] by simp
  moreover have "10 \<le> unat (bestIndex s ! 1 ! 2) \<and> unat (bestIndex s ! 1 ! 2) < 15 \<and>
      bestIndex s ! 1 ! 2 * N div M = 2"
    using b [rule_format, OF k] by simp
  ultimately show ?thesis
    using I r by blast
qed






text \<open>
  C5: in the feedback call that ends a generation, for every operator \<open>i\<close> the count
  \<open>sumv\<close> of elites with operator \<open>i\<close> on is replaced by \<open>N - 1\<close> when it is \<open>N\<close> and by 1
  when it is 0, so the value \<open>c\<close> used lies strictly between 0 and \<open>N\<close>, and the new
  probability is \<^verbatim>\<open>(1 - 0.3) * p[i] + 0.3 * c / N\<close>, each operation rounded by \<open>fl\<close>.
\<close>

theorem probability_update_uses_clamped_sum:
  assumes wf: "well_formed s" and seed: "seed < length (nextToEvaluate s)"
    and last: "nextToEvaluate s ! seed + 1 = M"
    and i: "i < unat (MutationOperatorsNum s)"
  shows "\<exists>s1 s'. record_fitness s seed numPaths = Some s1 \<and>
     DARWIN_NotifyFeedback fl s seed numPaths dbl = Some s' \<and>
     (let sumv = int (length (filter (\<lambda>j. individual s1 ! seed ! unat (bestIndex s1 ! seed ! j) ! i)
                         [0..<unat N]));
          c = (if sumv = int (unat N) then int (unat N) - 1 else if sumv = 0 then 1 else sumv)
      in 0 < c \<and> c < int (unat N) \<and>
         p s' ! seed ! i =
           fl (fl (fl (1 - fl (3 / 10)) * (p s ! seed ! i)) + fl (fl (fl (3 / 10) * of_int c) / of_nat (unat N))))"
proof -
  let ?s1 = "recorded s seed numPaths"
  let ?s' = "fed fl s seed numPaths dbl"
  define k where "k = elite_count (individual s ! seed) (bestIndex ?s1 ! seed) i (unat N)"
  have r: "record_fitness s seed numPaths = Some ?s1"
    using wf seed by (rule record_fitness_eq)
  have f: "DARWIN_NotifyFeedback fl s seed numPaths dbl = Some ?s'"
    using wf seed by (rule NotifyFeedback_eq)
  have len: "seed < length (p s)" "length (p s ! seed) = unat (MutationOperatorsNum s)"
    using wf seed by (simp_all add: well_formed_def arrays_ok_def)
  have range: "0 \<le> k" "k \<le> 4"
    using elite_count_range [of "individual s ! seed" "bestIndex ?s1 ! seed" i "unat N"]
    by (simp_all add: k_def)
  have c: "(if k = int (unat N) then int (unat N) - 1 else if k = 0 then 1 else k) = clamp_sum k"
    using clamp_sum_cases [OF range] by simp
  have pos: "0 < clamp_sum k" "clamp_sum k < int (unat N)"
    using clamp_sum_range [OF range] by simp_all
  have "p ?s' ! seed ! i = smooth fl (p s ! seed ! i) (clamp_sum k)"
    using last len i by (simp add: fed_p k_def)
  then have new: "p ?s' ! seed ! i =
      fl (fl (fl (1 - fl (3 / 10)) * (p s ! seed ! i)) + fl (fl (fl (3 / 10) * of_int (clamp_sum k)) / of_nat (unat N)))"
    by (simp add: smooth_def LEARNING_RATE_def)
  have k: "int (length (filter (\<lambda>j. individual ?s1 ! seed ! unat (bestIndex ?s1 ! seed ! j) ! i)
                         [0..<unat N])) = k"
    by (simp add: k_def elite_count_def)
  have "let sumv = int (length (filter (\<lambda>j. individual ?s1 ! seed ! unat (bestIndex ?s1 ! seed ! j) ! i)
                         [0..<unat N]));
          c = (if sumv = int (unat N) then int (unat N) - 1 else if sumv = 0 then 1 else sumv)
      in 0 < c \<and> c < int (unat N) \<and>
         p ?s' ! seed ! i =
           fl (fl (fl (1 - fl (3 / 10)) * (p s ! seed ! i)) + fl (fl (fl (3 / 10) * of_int c) / of_nat (unat N)))"
    unfolding Let_def k c using pos new by (intro conjI)
  with r f show ?thesis
    by blast
qed

theorem probability_update_uses_clamped_sum_witness:
  "\<exists>s'. DARWIN_NotifyFeedback (\<lambda>x. x) (test_state 19 [True, False]) 0 9 (\<lambda>i. 3 / 8) = Some s' \<and>
     p s' ! 0 ! 0 = (1 - 3 / 10) * (1 / 2) + 3 / 10 * 3 / 4 \<and>
     p s' ! 0 ! 1 = (1 - 3 / 10) * (1 / 4) + 3 / 10 * 1 / 4"
proof -
  let ?s = "test_state 19 [True, False]"
  let ?s1 = "recorded ?s 0 9"
  have wf: "well_formed ?s"
    by (rule test_state_well_formed) (simp_all add: M_def)
  have seed: "0 < length (nextToEvaluate ?s)"
    by (simp add: test_state_def)
  have last: "nextToEvaluate ?s ! 0 + 1 = M"
    by (simp add: test_state_def M_def)
  have i: "0 < unat (MutationOperatorsNum ?s)" "1 < unat (MutationOperatorsNum ?s)"
    by (simp_all add: test_state_def)
  have r0: "record_fitness ?s 0 9 = Some ?s1"
    using wf seed by (rule record_fitness_eq)
  have all_on: "int (length (filter (\<lambda>j. individual ?s1 ! 0 ! unat (bestIndex ?s1 ! 0 ! j) ! 0)
      [0..<unat N])) = 4"
    by code_simp
  have all_off: "int (length (filter (\<lambda>j. individual ?s1 ! 0 ! unat (bestIndex ?s1 ! 0 ! j) ! 1)
      [0..<unat N])) = 0"
    by code_simp
  have old: "p ?s ! 0 ! 0 = 1 / 2" "p ?s ! 0 ! 1 = 1 / 4"
    by (simp_all add: test_state_def)
  from probability_update_uses_clamped_sum [OF wf seed last i(1), of 9 "\<lambda>x. x" "\<lambda>i. 3 / 8"]
  obtain s1 s' where r: "record_fitness ?s 0 9 = Some s1"
    and f: "DARWIN_NotifyFeedback (\<lambda>x. x) ?s 0 9 (\<lambda>i. 3 / 8) = Some s'"
    and p0: "let sumv = int (length (filter (\<lambda>j. individual s1 ! 0 ! unat (bestIndex s1 ! 0 ! j) ! 0)
                         [0..<unat N]));
          c = (if sumv = int (unat N) then int (unat N) - 1 else if sumv = 0 then 1 else sumv)
      in 0 < c \<and> c < int (unat N) \<and>
         p s' ! 0 ! 0 = (1 - 3 / 10) * (p ?s ! 0 ! 0) + 3 / 10 * of_int c / of_nat (unat N)"
    by blast
  from probability_update_uses_clamped_sum [OF wf seed last i(2), of 9 "\<lambda>x. x" "\<lambda>i. 3 / 8"]
  obtain s2 s'' where r': "record_fitness ?s 0 9 = Some s2"
    and f': "DARWIN_NotifyFeedback (\<lambda>x. x) ?s 0 9 (\<lambda>i. 3 / 8) = Some s''"
    and p1: "let sumv = int (length (filter (\<lambda>j. individual s2 ! 0 ! unat (bestIndex s2 ! 0 ! j) ! 1)
                         [0..<unat N]));
          c = (if sumv = int (unat N) then int (unat N) - 1 else if sumv = 0 then 1 else sumv)
      in 0 < c \<and> c < int (unat N) \<and>
         p s'' ! 0 ! 1 = (1 - 3 / 10) * (p ?s ! 0 ! 1) + 3 / 10 * of_int c / of_nat (unat N)"
    by blast
  have eq: "s1 = ?s1" "s2 = ?s1" "s'' = s'"
    using r r' r0 f f' by simp_all
  have "p s' ! 0 ! 0 = (1 - 3 / 10) * (1 / 2) + 3 / 10 * 3 / 4"
    using p0 unfolding eq all_on old Let_def by simp
  moreover have "p s' ! 0 ! 1 = (1 - 3 / 10) * (1 / 4) + 3 / 10 * 1 / 4"
    using p1 unfolding eq all_off old Let_def by simp
  ultimately show ?thesis
    using f by blast
qed

text \<open>
  C3: on a well-formed state, for every valid seed, every start \<open>r\<close> the random source may
  return (\<open>r < K\<close>) and every content of the current candidate, the all-off one included,
  \<^verbatim>\<open>DARWIN_SelectOperator\<close> terminates and returns the operator id \<open>w\<close> with \<open>w < K\<close>,
  converted to \<^verbatim>\<open>int\<close>.  For \<open>K\<close> up to \<open>2\<^sup>3\<^sup>1\<close> the conversion keeps the value, so the
  returned \<^verbatim>\<open>int\<close> lies between 0 and \<open>K - 1\<close>.
\<close>

theorem select_operator_in_range:
  assumes wf: "well_formed s" and seed: "seed < length (nextToEvaluate s)"
    and r: "r < MutationOperatorsNum s"
  shows "\<exists>w s'. DARWIN_SelectOperator s seed r = Some (sint w, s') \<and>
     w < MutationOperatorsNum s \<and>
     (unat (MutationOperatorsNum s) \<le> 2 ^ 31 \<longrightarrow>
        0 \<le> sint w \<and> sint w < int (unat (MutationOperatorsNum s)))"
proof -
  let ?K = "MutationOperatorsNum s"
  let ?cand = "individual s ! seed ! (currentRelativeProb s ! seed)"
  note row = candidate_row [OF wf seed]
  have "unat r < unat ?K"
    using r by (simp add: word_less_nat_alt)
  then obtain w where w: "select_loop ?cand ?K r 0 = Some w" "w < ?K"
    using select_loop_returns [of r ?K ?cand 0] row(4) by blast
  have call: "DARWIN_SelectOperator s seed r = Some (sint w, s)"
    using row w(1) by (simp add: DARWIN_SelectOperator_def)
  have "0 \<le> sint w \<and> sint w < int (unat ?K)" if "unat ?K \<le> 2 ^ 31"
  proof -
    have "sint w = int (unat w)"
      using w(2) that by (rule id_as_int)
    moreover have "uint w < uint ?K"
      using w(2) by (simp add: word_less_def)
    ultimately show ?thesis
      by simp
  qed
  with call w(2) show ?thesis
    by blast
qed

theorem select_operator_in_range_witness:
  "\<exists>op s'. DARWIN_SelectOperator (test_state 1 [False, False]) 0 1 = Some (op, s') \<and>
     0 \<le> op \<and> op < 2"
proof -
  let ?s = "test_state 1 [False, False]"
  have wf: "well_formed ?s"
    by (rule test_state_well_formed) (simp_all add: M_def)
  have seed: "0 < length (nextToEvaluate ?s)"
    by (simp add: test_state_def)
  have r: "1 < MutationOperatorsNum ?s"
    by (simp add: test_state_def)
  have K: "unat (MutationOperatorsNum ?s) = 2"
    by (simp add: test_state_def)
  from select_operator_in_range [OF wf seed r] obtain w :: "32 word" and s'
    where "DARWIN_SelectOperator ?s 0 1 = Some (sint w, s')"
      and "unat (MutationOperatorsNum ?s) \<le> 2 ^ 31 \<longrightarrow>
        0 \<le> sint w \<and> sint w < int (unat (MutationOperatorsNum ?s))"
    by blast
  then have "DARWIN_SelectOperator ?s 0 1 = Some (sint w, s') \<and> 0 \<le> sint w \<and> sint w < 2"
    unfolding K by simp
  then show ?thesis
    by blast
qed

text \<open>
  C4: if some operator of the current candidate is on, \<^verbatim>\<open>DARWIN_SelectOperator\<close> returns
  the operator \<open>(r + t) mod K\<close> for the least number \<open>t\<close> of forward steps from the start
  \<open>r\<close> that reaches an operator that is on: that operator is on, the \<open>t\<close> operators probed
  before it are off, and the start itself is returned when it is on.
\<close>

theorem select_operator_first_on:
  assumes wf: "well_formed s" and seed: "seed < length (nextToEvaluate s)"
    and r: "r < MutationOperatorsNum s"
    and on: "\<exists>i < unat (MutationOperatorsNum s).
               individual s ! seed ! (currentRelativeProb s ! seed) ! i"
  shows "\<exists>w s' t. DARWIN_SelectOperator s seed r = Some (sint w, s') \<and>
     currentRelativeProb s ! seed = unat (nextToEvaluate s ! seed) \<and>
     t < unat (MutationOperatorsNum s) \<and>
     unat w = (unat r + t) mod unat (MutationOperatorsNum s) \<and>
     individual s ! seed ! (currentRelativeProb s ! seed) ! unat w \<and>
     (\<forall>t' < t. \<not> individual s ! seed ! (currentRelativeProb s ! seed)
                    ! ((unat r + t') mod unat (MutationOperatorsNum s))) \<and>
     (individual s ! seed ! (currentRelativeProb s ! seed) ! unat r \<longrightarrow> w = r) \<and>
     (unat (MutationOperatorsNum s) \<le> 2 ^ 31 \<longrightarrow> sint w = int (unat w))"
proof -
  let ?K = "MutationOperatorsNum s"
  let ?cand = "individual s ! seed ! (currentRelativeProb s ! seed)"
  note row = candidate_row [OF wf seed]
  have rK: "unat r < unat ?K"
    using r by (simp add: word_less_nat_alt)
  obtain t where t: "t < unat ?K" "?cand ! ((unat r + t) mod unat ?K)"
      "\<forall>t' < t. \<not> ?cand ! ((unat r + t') mod unat ?K)"
    using first_on [OF on rK] by blast
  define w :: "32 word" where "w = of_nat ((unat r + t) mod unat ?K)"
  have "(unat r + t) mod unat ?K < unat ?K"
    using rK by simp
  then have uw: "unat w = (unat r + t) mod unat ?K"
    unfolding w_def by (intro le_unat_uoi [of _ ?K]) simp
  have "select_loop ?cand ?K r 0 = Some w"
    unfolding w_def using row(4) rK t(2,3) t(1) by (intro select_loop_probe) simp_all
  then have call: "DARWIN_SelectOperator s seed r = Some (sint w, s)"
    using row by (simp add: DARWIN_SelectOperator_def)
  have ptr: "currentRelativeProb s ! seed = unat (nextToEvaluate s ! seed)"
    using wf seed by (simp add: well_formed_def cursors_ok_def)
  have start: "w = r" if "?cand ! unat r"
  proof -
    have "t = 0"
    proof (rule ccontr)
      assume "t \<noteq> 0"
      then have "\<not> ?cand ! ((unat r + 0) mod unat ?K)"
        using t(3) by blast
      with that rK show False
        by simp
    qed
    then have "unat w = unat r"
      using uw rK by simp
    then show ?thesis
      by (simp add: word_unat_eq_iff)
  qed
  have conv: "sint w = int (unat w)" if "unat ?K \<le> 2 ^ 31"
  proof -
    have "w < ?K"
      using uw rK by (simp add: word_less_nat_alt)
    then show ?thesis
      using that by (rule id_as_int)
  qed
  have "?cand ! unat w"
    using t(2) uw by simp
  with call ptr t(1,3) uw start conv show ?thesis
    by blast
qed

theorem select_operator_first_on_witness:
  "\<exists>s'. DARWIN_SelectOperator (test_state 1 [True, False]) 0 1 = Some (0, s')"
proof -
  let ?s = "test_state 1 [True, False]"
  have wf: "well_formed ?s"
    by (rule test_state_well_formed) (simp_all add: M_def)
  have seed: "0 < length (nextToEvaluate ?s)"
    by (simp add: test_state_def)
  have r: "1 < MutationOperatorsNum ?s"
    by (simp add: test_state_def)
  have cand: "individual ?s ! 0 ! (currentRelativeProb ?s ! 0) = [True, False]"
    by (simp add: test_state_def)
  have on: "\<exists>i < unat (MutationOperatorsNum ?s). individual ?s ! 0 ! (currentRelativeProb ?s ! 0) ! i"
    unfolding cand by (intro exI [of _ 0]) (simp add: test_state_def)
  have K: "unat (MutationOperatorsNum ?s) = 2"
    by (simp add: test_state_def)
  from select_operator_first_on [OF wf seed r on] obtain w :: "32 word" and s' t
    where call: "DARWIN_SelectOperator ?s 0 1 = Some (sint w, s')"
      and uw: "unat w = (unat (1 :: 32 word) + t) mod unat (MutationOperatorsNum ?s)"
      and hit: "individual ?s ! 0 ! (currentRelativeProb ?s ! 0) ! unat w"
    by blast
  have "unat w < 2"
    unfolding uw K by simp
  then have "unat w = 0 \<or> unat w = 1"
    by presburger
  with hit have "unat w = 0"
    unfolding cand by auto
  then have "w = 0"
    by (simp add: unat_eq_0)
  with call show ?thesis
    by auto
qed

text \<open>
  C8: \<^verbatim>\<open>DARWIN_SelectOperator\<close> returns the engine state it was called on: probability
  vectors, populations, fitness arrays, elite indices, cursors and candidate pointers of all
  seeds are as before.  The draw \<open>r\<close> is the only thing it takes from outside.
\<close>

theorem select_operator_changes_nothing:
  assumes wf: "well_formed s" and seed: "seed < length (nextToEvaluate s)"
    and r: "r < MutationOperatorsNum s"
  shows "\<exists>op s'. DARWIN_SelectOperator s seed r = Some (op, s') \<and> s' = s \<and>
     p s' = p s \<and> individual s' = individual s \<and> Fitness s' = Fitness s \<and>
     bestIndex s' = bestIndex s \<and> nextToEvaluate s' = nextToEvaluate s \<and>
     currentRelativeProb s' = currentRelativeProb s"
proof -
  let ?cand = "individual s ! seed ! (currentRelativeProb s ! seed)"
  note row = candidate_row [OF wf seed]
  have "unat r < unat (MutationOperatorsNum s)"
    using r by (simp add: word_less_nat_alt)
  then obtain w where "select_loop ?cand (MutationOperatorsNum s) r 0 = Some w"
    using select_loop_returns [of r "MutationOperatorsNum s" ?cand 0] row(4) by blast
  then have "DARWIN_SelectOperator s seed r = Some (sint w, s)"
    using row by (simp add: DARWIN_SelectOperator_def)
  then show ?thesis
    by simp
qed

theorem select_operator_changes_nothing_witness:
  "\<exists>op. DARWIN_SelectOperator (test_state 7 [False, True]) 0 0 = Some (op, test_state 7 [False, True])"
proof -
  let ?s = "test_state 7 [False, True]"
  have wf: "well_formed ?s"
    by (rule test_state_well_formed) (simp_all add: M_def)
  have seed: "0 < length (nextToEvaluate ?s)"
    by (simp add: test_state_def)
  have r: "0 < MutationOperatorsNum ?s"
    by (simp add: test_state_def)
  from select_operator_changes_nothing [OF wf seed r] show ?thesis
    by blast
qed

text \<open>
  C2, evaluated: \<^verbatim>\<open>memset(_Fitness[seed], 0, M)\<close> clears \<open>M\<close> bytes, which are the first
  five of the \<open>M\<close> cells.  On a host whose fresh blocks hold 7, the fitness row after
  \<^verbatim>\<open>DARWIN_init\<close> is five zeros followed by fifteen sevens; after twenty feedback calls
  with 3 paths each, when the generation boundary has run and the cursor is back at 0, it
  is five zeros followed by fifteen threes.  The lemmas \<open>init_Fitness\<close> and
  \<open>boundary_Fitness\<close> give the same rows for every host and every history.
\<close>

theorem fitness_reset_covers_five_cells:
  "DARWIN_init test_host 1 2 \<bind> (\<lambda>s0. run (\<lambda>x. x) s0 (replicate 20 (0, 3, \<lambda>i. 1 / 4)) \<bind>
      (\<lambda>s. Some (Fitness s0 ! 0, nextToEvaluate s ! 0, Fitness s ! 0))) =
   Some (replicate 5 0 @ replicate 15 7, 0, replicate 5 0 @ replicate 15 3)"
  by code_simp

end
